theory Spec2Isabelle
  imports Main "HOL-Library.Word"
begin

section \<open>Stopwatch firmware: data model\<close>

text \<open>
  The firmware of \<^verbatim>\<open>src/firmware/main.c\<close> runs on a 32-bit RISC-V core
  (\<^verbatim>\<open>-march=rv32i -mabi=ilp32\<close>): \<^verbatim>\<open>int\<close>, \<^verbatim>\<open>unsigned int\<close> and pointers are
  32 bits wide, \<^verbatim>\<open>unsigned char\<close> is 8 bits. A C \<^verbatim>\<open>int\<close> is a 32-bit word that
  is compared with the signed orders \<open>\<le>s\<close> and \<open><s\<close>; arithmetic wraps, as the
  compiled code does.
\<close>

type_synonym u8 = "8 word"
type_synonym u32 = "32 word"
type_synonym int32 = "32 word"

text \<open>
  The control and status registers of the stopwatch peripheral. Their accessors come from
  the generated header \<^verbatim>\<open>generated/csr.h\<close>; the firmware uses three command lines and
  three counters.
\<close>

datatype csr = Start | Stop | Reset | Minutes | Seconds | Ticks

text \<open>One access of the firmware to a register, with the value written or obtained.\<close>

datatype event = CsrWrite csr u32 | CsrRead csr u32

text \<open>
  The peripheral is outside the program. It is a parameter of the model: the value that a
  register read returns is any function of the register and of all accesses made so far.
\<close>

type_synonym hardware = "event list \<Rightarrow> csr \<Rightarrow> u32"

text \<open>
  The globals of the program: the pointer \<^verbatim>\<open>lap_mem\<close> (initialised to
  \<^verbatim>\<open>MAIN_RAM_BASE\<close> and never assigned again), the byte-addressed memory it points into,
  the counter \<^verbatim>\<open>lap_count\<close>, and the log of register accesses made so far.
\<close>

record firmware =
  lap_mem :: u32
  ram :: "u32 \<Rightarrow> u8"
  lap_count :: int32
  trace :: "event list"

definition MAX_LAPS :: int32 where
  "MAX_LAPS = 16"

definition LAP_RECORD_SIZE :: int32 where
  "LAP_RECORD_SIZE = 3"

text \<open>
  The state at entry of \<^verbatim>\<open>main\<close>: \<^verbatim>\<open>lap_count = 0\<close>, no register accessed yet. The
  value of \<^verbatim>\<open>MAIN_RAM_BASE\<close> (from \<^verbatim>\<open>generated/mem.h\<close>) and the initial contents
  of the memory are parameters.
\<close>

definition boot :: "u32 \<Rightarrow> (u32 \<Rightarrow> u8) \<Rightarrow> firmware" where
  "boot MAIN_RAM_BASE ram0 =
     \<lparr>lap_mem = MAIN_RAM_BASE, ram = ram0, lap_count = 0, trace = []\<rparr>"

section \<open>Device interface\<close>

definition csr_write :: "csr \<Rightarrow> u32 \<Rightarrow> firmware \<Rightarrow> firmware" where
  "csr_write r v s = s\<lparr>trace := trace s @ [CsrWrite r v]\<rparr>"

definition csr_read :: "hardware \<Rightarrow> csr \<Rightarrow> firmware \<Rightarrow> u32 \<times> firmware" where
  "csr_read hw r s =
     (let v = hw (trace s) r in (v, s\<lparr>trace := trace s @ [CsrRead r v]\<rparr>))"

definition stopwatch_start_write :: "u32 \<Rightarrow> firmware \<Rightarrow> firmware" where
  "stopwatch_start_write v = csr_write Start v"

definition stopwatch_stop_write :: "u32 \<Rightarrow> firmware \<Rightarrow> firmware" where
  "stopwatch_stop_write v = csr_write Stop v"

definition stopwatch_reset_write :: "u32 \<Rightarrow> firmware \<Rightarrow> firmware" where
  "stopwatch_reset_write v = csr_write Reset v"

definition stopwatch_minutes_read :: "hardware \<Rightarrow> firmware \<Rightarrow> u32 \<times> firmware" where
  "stopwatch_minutes_read hw = csr_read hw Minutes"

definition stopwatch_seconds_read :: "hardware \<Rightarrow> firmware \<Rightarrow> u32 \<times> firmware" where
  "stopwatch_seconds_read hw = csr_read hw Seconds"

definition stopwatch_ticks_read :: "hardware \<Rightarrow> firmware \<Rightarrow> u32 \<times> firmware" where
  "stopwatch_ticks_read hw = csr_read hw Ticks"

section \<open>Lap store\<close>

text \<open>
  \<^verbatim>\<open>lap_mem[i]\<close> is the byte at address \<^verbatim>\<open>lap_mem + i\<close>; the index is an \<^verbatim>\<open>int\<close>,
  so a negative index addresses memory below the pointer.
\<close>

definition lap_mem_get :: "int32 \<Rightarrow> firmware \<Rightarrow> u8" where
  "lap_mem_get i s = ram s (lap_mem s + i)"

definition lap_mem_set :: "int32 \<Rightarrow> u8 \<Rightarrow> firmware \<Rightarrow> firmware" where
  "lap_mem_set i v s = s\<lparr>ram := (ram s)(lap_mem s + i := v)\<rparr>"

text \<open>
  \<^verbatim>\<open>save_lap\<close> (lines 35 to 43). The cast \<^verbatim>\<open>(unsigned char)\<close> is \<open>ucast\<close> to 8 bits.
\<close>

definition save_lap :: "hardware \<Rightarrow> firmware \<Rightarrow> firmware" where
  "save_lap hw s =
     (if MAX_LAPS \<le>s lap_count s then s
      else
        let base = lap_count s * LAP_RECORD_SIZE;
            (m, s1) = stopwatch_minutes_read hw s;
            s2 = lap_mem_set (base + 0) (ucast m) s1;
            (sec, s3) = stopwatch_seconds_read hw s2;
            s4 = lap_mem_set (base + 1) (ucast sec) s3;
            (t, s5) = stopwatch_ticks_read hw s4;
            s6 = lap_mem_set (base + 2) (ucast t) s5
        in s6\<lparr>lap_count := lap_count s6 + 1\<rparr>)"

text \<open>
  \<^verbatim>\<open>read_lap\<close> (lines 46 to 55). The three output parameters \<^verbatim>\<open>*m\<close>, \<^verbatim>\<open>*s\<close>,
  \<^verbatim>\<open>*t\<close> are the result triple; no global is written. The only guard is
  \<^verbatim>\<open>index >= lap_count\<close>, a signed comparison.
\<close>

definition read_lap :: "int32 \<Rightarrow> firmware \<Rightarrow> u8 \<times> u8 \<times> u8" where
  "read_lap index s =
     (if lap_count s \<le>s index then (0, 0, 0)
      else
        let base = index * LAP_RECORD_SIZE
        in (lap_mem_get (base + 0) s, lap_mem_get (base + 1) s, lap_mem_get (base + 2) s))"

section \<open>Timing loop\<close>

text \<open>
  \<^verbatim>\<open>while (d--);\<close> tests the old value of \<^verbatim>\<open>d\<close> and then decrements it, also on the
  test that fails. The function returns the final value of \<^verbatim>\<open>d\<close> and, in its second
  component, the number of times the body was entered (counted up from \<open>k\<close>).
\<close>

function spin :: "u32 \<Rightarrow> nat \<Rightarrow> u32 \<times> nat" where
  "spin d k = (if d \<noteq> 0 then spin (d - 1) (Suc k) else (d - 1, k))"
  by pat_completeness auto
termination
  by (relation "measure (\<lambda>(d, k). unat d)") (auto simp: unat_minus_one unat_gt_0)

text \<open>
  The loop of \<^verbatim>\<open>delay_ms\<close> (lines 60 to 63), on the local \<^verbatim>\<open>ms\<close> and the globals.
  It returns the final value of \<^verbatim>\<open>ms\<close>, the number of times its body ran, and the
  globals.
\<close>

function delay_ms_loop :: "u32 \<Rightarrow> nat \<Rightarrow> firmware \<Rightarrow> (u32 \<times> nat) \<times> firmware" where
  "delay_ms_loop ms k s =
     (if ms \<noteq> 0 then (let (d, j) = spin 1000 0 in delay_ms_loop (ms - 1) (Suc k) s)
      else ((ms - 1, k), s))"
  by pat_completeness auto
termination
  by (relation "measure (\<lambda>(ms, k, s). unat ms)") (auto simp: unat_minus_one unat_gt_0)

definition delay_ms :: "u32 \<Rightarrow> firmware \<Rightarrow> firmware" where
  "delay_ms ms s = snd (delay_ms_loop ms 0 s)"

section \<open>Control loop\<close>

text \<open>Lines 69 to 75 of \<^verbatim>\<open>main\<close>: the reset pulse, then the start pulse.\<close>

definition main_init :: "firmware \<Rightarrow> firmware" where
  "main_init s =
     (let s1 = stopwatch_reset_write 1 s;
          s2 = stopwatch_reset_write 0 s1;
          s3 = stopwatch_start_write 1 s2;
          s4 = stopwatch_start_write 0 s3
      in s4)"

text \<open>
  One pass through the body of the \<^verbatim>\<open>while (1)\<close> of lines 78 to 104. The result
  says whether the \<^verbatim>\<open>break\<close> was taken, gives the locals \<^verbatim>\<open>m\<close>, \<^verbatim>\<open>s\<close>, \<^verbatim>\<open>t\<close> that
  the verification read filled, and the globals.
\<close>

definition main_cycle :: "hardware \<Rightarrow> firmware \<Rightarrow> bool \<times> (u8 \<times> u8 \<times> u8) \<times> firmware" where
  "main_cycle hw s =
     (let s1 = delay_ms 5000 s;
          s2 = save_lap hw s1;
          mst = read_lap (lap_count s2 - 1) s2
      in if MAX_LAPS \<le>s lap_count s2
         then (True, mst, stopwatch_stop_write 0 (stopwatch_stop_write 1 s2))
         else (False, mst, s2))"

text \<open>
  \<^verbatim>\<open>main\<close> as a machine with three control points: before line 69, at the head of the
  capture loop (line 78), and in the empty loop of line 107, which has no exit.
\<close>

datatype pc = INIT | RUNNING | HALTED

fun main_step :: "hardware \<Rightarrow> pc \<times> firmware \<Rightarrow> pc \<times> firmware" where
  "main_step hw (INIT, s) = (RUNNING, main_init s)"
| "main_step hw (RUNNING, s) =
     (case main_cycle hw s of
        (True, mst, s') \<Rightarrow> (HALTED, s')
      | (False, mst, s') \<Rightarrow> (RUNNING, s'))"
| "main_step hw (HALTED, s) = (HALTED, s)"

definition main_run :: "hardware \<Rightarrow> nat \<Rightarrow> firmware \<Rightarrow> pc \<times> firmware" where
  "main_run hw n s = (main_step hw ^^ n) (INIT, s)"

section \<open>Notions used to state the properties\<close>

text \<open>
  The three values that the peripheral hands out when its minutes, seconds and ticks
  registers are read one after the other, starting after the accesses \<open>tr\<close>.
\<close>

definition sample :: "hardware \<Rightarrow> event list \<Rightarrow> u32 \<times> u32 \<times> u32" where
  "sample hw tr =
     (let m = hw tr Minutes;
          sec = hw (tr @ [CsrRead Minutes m]) Seconds;
          t = hw (tr @ [CsrRead Minutes m, CsrRead Seconds sec]) Ticks
      in (m, sec, t))"

text \<open>The register accesses that a capture of the sample \<open>(m, sec, t)\<close> logs.\<close>

definition sample_events :: "u32 \<times> u32 \<times> u32 \<Rightarrow> event list" where
  "sample_events v =
     (case v of (m, sec, t) \<Rightarrow> [CsrRead Minutes m, CsrRead Seconds sec, CsrRead Ticks t])"

text \<open>A sample narrowed to the three \<^verbatim>\<open>unsigned char\<close> fields of a lap record.\<close>

definition narrow :: "u32 \<times> u32 \<times> u32 \<Rightarrow> u8 \<times> u8 \<times> u8" where
  "narrow v = (case v of (m, sec, t) \<Rightarrow> (ucast m, ucast sec, ucast t))"

text \<open>The state after \<open>n\<close> calls of \<^verbatim>\<open>save_lap\<close>.\<close>

definition appends :: "hardware \<Rightarrow> nat \<Rightarrow> firmware \<Rightarrow> firmware" where
  "appends hw n s = (save_lap hw ^^ n) s"

text \<open>
  The operations of the lap store, to speak about arbitrary sequences of them. A read
  computes its record and leaves the globals as they are.
\<close>

datatype lap_op = Append | Read int32

fun lap_apply :: "hardware \<Rightarrow> lap_op \<Rightarrow> firmware \<Rightarrow> firmware" where
  "lap_apply hw Append s = save_lap hw s"
| "lap_apply hw (Read i) s = (let mst = read_lap i s in s)"

definition lap_inv :: "firmware \<Rightarrow> bool" where
  "lap_inv s \<longleftrightarrow> 0 \<le>s lap_count s \<and> lap_count s \<le>s MAX_LAPS"

text \<open>The address of byte \<open>off\<close> of the lap region.\<close>

definition lap_byte :: "firmware \<Rightarrow> nat \<Rightarrow> u32" where
  "lap_byte s off = lap_mem s + of_nat off"

fun is_command :: "event \<Rightarrow> bool" where
  "is_command (CsrWrite r v) = True"
| "is_command (CsrRead r v) = False"

fun is_reset_or_start :: "event \<Rightarrow> bool" where
  "is_reset_or_start (CsrWrite r v) = (r = Reset \<or> r = Start)"
| "is_reset_or_start (CsrRead r v) = False"

text \<open>The commands of lines 70 to 75 and of lines 100 and 101, as logged.\<close>

definition init_pulses :: "event list" where
  "init_pulses = [CsrWrite Reset 1, CsrWrite Reset 0, CsrWrite Start 1, CsrWrite Start 0]"

definition stop_pulse :: "event list" where
  "stop_pulse = [CsrWrite Stop 1, CsrWrite Stop 0]"

text \<open>
  A lap record read back as three register-sized values, and the samples that an
  \<^verbatim>\<open>unsigned char\<close> represents.
\<close>

definition widen :: "u8 \<times> u8 \<times> u8 \<Rightarrow> u32 \<times> u32 \<times> u32" where
  "widen v = (case v of (m, sec, t) \<Rightarrow> (ucast m, ucast sec, ucast t))"

definition fits_u8 :: "u32 \<times> u32 \<times> u32 \<Rightarrow> bool" where
  "fits_u8 v = (case v of (m, sec, t) \<Rightarrow> m \<le> 255 \<and> sec \<le> 255 \<and> t \<le> 255)"

text \<open>
  The globals when \<^verbatim>\<open>main\<close> reaches line 107: sixteen appends after the initial
  pulses, then the stop pulse.
\<close>

definition halted_state :: "hardware \<Rightarrow> firmware \<Rightarrow> firmware" where
  "halted_state hw s0 =
     (appends hw 16 (main_init s0))\<lparr>trace := trace (appends hw 16 (main_init s0)) @ stop_pulse\<rparr>"

text \<open>
  Two fixtures for concrete runs: a peripheral whose registers all show \<open>v\<close> plus the
  number of accesses made so far, and a store that claims \<open>c\<close> records over zeroed memory.
\<close>

definition counter_from :: "u32 \<Rightarrow> hardware" where
  "counter_from v tr r = v + of_nat (length tr)"

definition store_of :: "int32 \<Rightarrow> firmware" where
  "store_of c = \<lparr>lap_mem = 0, ram = (\<lambda>a. 0), lap_count = c, trace = []\<rparr>"

section \<open>Words\<close>

lemma sint_of_nat_small: "k < 2 ^ 31 \<Longrightarrow> sint (of_nat k :: 32 word) = int k"
  by (simp add: signed_of_nat signed_take_bit_int_eq_self)

lemma sle_of_nat:
  "i < 2 ^ 31 \<Longrightarrow> k < 2 ^ 31 \<Longrightarrow> ((of_nat i :: int32) \<le>s of_nat k) = (i \<le> k)"
  by (simp add: word_sle_eq sint_of_nat_small)

lemma of_nat_inj32:
  "i < 2 ^ 32 \<Longrightarrow> k < 2 ^ 32 \<Longrightarrow> ((of_nat i :: u32) = of_nat k) = (i = k)"
  by (simp add: word_of_nat_eq_iff take_bit_nat_eq_self)

lemma count_as_nat:
  fixes x :: int32
  assumes "0 \<le>s x" "x \<le>s 16"
  obtains k where "k \<le> 16" "x = of_nat k"
proof
  from assms have s: "0 \<le> sint x" "sint x \<le> 16" by (simp_all add: word_sle_eq)
  show "nat (sint x) \<le> 16" using s by simp
  show "x = of_nat (nat (sint x))" using s by simp
qed

lemma unat_narrow: "unat (ucast (v::u32) :: u8) = unat v mod 256"
  by (simp add: unsigned_ucast_eq take_bit_eq_mod)

section \<open>The timing loop returns\<close>

declare spin.simps [simp del] delay_ms_loop.simps [simp del]

lemma spin_result: "spin d k = (-1, k + unat d)"
proof (induction d k rule: spin.induct)
  case (1 d k)
  show ?case
  proof (cases "d = 0")
    case True
    then show ?thesis by (subst spin.simps) simp
  next
    case False
    then have "unat (d - 1) = unat d - 1" "0 < unat d"
      by (simp_all add: unat_minus_one unat_gt_0)
    with False 1 show ?thesis by (subst spin.simps) simp
  qed
qed

lemma delay_ms_loop_result: "delay_ms_loop ms k s = ((-1, k + unat ms), s)"
proof (induction ms k s rule: delay_ms_loop.induct)
  case (1 ms k s)
  show ?case
  proof (cases "ms = 0")
    case True
    then show ?thesis by (subst delay_ms_loop.simps) simp
  next
    case False
    then have "unat (ms - 1) = unat ms - 1" "0 < unat ms"
      by (simp_all add: unat_minus_one unat_gt_0)
    with False 1 show ?thesis
      by (subst delay_ms_loop.simps) (simp add: spin_result)
  qed
qed

lemma delay_ms_id: "delay_ms ms s = s"
  by (simp add: delay_ms_def delay_ms_loop_result)

section \<open>One append, one read\<close>

lemma save_lap_full: "MAX_LAPS \<le>s lap_count s \<Longrightarrow> save_lap hw s = s"
  by (simp add: save_lap_def)

lemma save_lap_free:
  assumes "\<not> MAX_LAPS \<le>s lap_count s" and "sample hw (trace s) = (m, sec, t)"
  shows "save_lap hw s =
           s\<lparr>ram := (ram s)(lap_mem s + lap_count s * 3 := ucast m,
                             lap_mem s + (lap_count s * 3 + 1) := ucast sec,
                             lap_mem s + (lap_count s * 3 + 2) := ucast t),
             trace := trace s @ [CsrRead Minutes m, CsrRead Seconds sec, CsrRead Ticks t],
             lap_count := lap_count s + 1\<rparr>"
  using assms
  by (auto simp add: save_lap_def sample_def Let_def stopwatch_minutes_read_def
      stopwatch_seconds_read_def stopwatch_ticks_read_def csr_read_def lap_mem_set_def
      LAP_RECORD_SIZE_def)

lemma not_full_iff: "(\<not> MAX_LAPS \<le>s x) = (x <s MAX_LAPS)"
  by (simp add: word_sle_eq word_sless_alt not_le)

lemma sint_succ:
  fixes x :: int32
  assumes "sint x < 16"
  shows "sint (x + 1) = sint x + 1"
proof -
  have "- (2 ^ 31) \<le> sint x" using sint_ge [of x] by simp
  with assms show ?thesis
    by (simp add: sint_word_ariths signed_take_bit_int_eq_self)
qed

lemma full_of_nat: "k \<le> 16 \<Longrightarrow> (MAX_LAPS \<le>s of_nat k) = (k = 16)"
  using sle_of_nat [of 16 k] by (auto simp: MAX_LAPS_def)

lemma lap_byte_eq_iff:
  "a < 2 ^ 32 \<Longrightarrow> b < 2 ^ 32 \<Longrightarrow> lap_mem s' = lap_mem s \<Longrightarrow>
   (lap_byte s' a = lap_byte s b) = (a = b)"
  by (simp add: lap_byte_def of_nat_inj32)

lemma slot_bytes:
  "lap_mem s + of_nat k * 3 = lap_byte s (3 * k)"
  "lap_mem s + (of_nat k * 3 + 1) = lap_byte s (3 * k + 1)"
  "lap_mem s + (of_nat k * 3 + 2) = lap_byte s (3 * k + 2)"
  by (simp_all add: lap_byte_def)

lemma save_lap_nat:
  assumes "lap_count s = of_nat k" and "k < 16" and "sample hw (trace s) = (m, sec, t)"
  shows "save_lap hw s =
           s\<lparr>ram := (ram s)(lap_byte s (3 * k) := ucast m,
                             lap_byte s (3 * k + 1) := ucast sec,
                             lap_byte s (3 * k + 2) := ucast t),
             trace := trace s @ sample_events (m, sec, t),
             lap_count := of_nat (Suc k)\<rparr>"
proof -
  have "\<not> MAX_LAPS \<le>s lap_count s"
    using assms(1,2) by (simp add: full_of_nat)
  from save_lap_free [OF this assms(3)] show ?thesis
    unfolding assms(1) slot_bytes sample_events_def by simp
qed

lemma read_lap_nat:
  assumes "lap_count s = of_nat k" and "k \<le> 16" and "i < k"
  shows "read_lap (of_nat i) s =
           (ram s (lap_byte s (3 * i)), ram s (lap_byte s (3 * i + 1)),
            ram s (lap_byte s (3 * i + 2)))"
proof -
  have "\<not> lap_count s \<le>s of_nat i"
    using assms by (simp add: sle_of_nat)
  then show ?thesis
    by (simp only: read_lap_def Let_def LAP_RECORD_SIZE_def lap_mem_get_def add_0_right
        slot_bytes if_False)
qed

lemma read_lap_beyond: "lap_count s \<le>s i \<Longrightarrow> read_lap i s = (0, 0, 0)"
  by (simp add: read_lap_def)

lemma lap_mem_save_lap: "lap_mem (save_lap hw s) = lap_mem s"
  by (simp add: save_lap_def Let_def stopwatch_minutes_read_def
      stopwatch_seconds_read_def stopwatch_ticks_read_def csr_read_def lap_mem_set_def)

lemma lap_byte_save_lap: "lap_byte (save_lap hw s) = lap_byte s"
  by (rule ext) (simp add: lap_byte_def lap_mem_save_lap)

lemma lap_count_save_lap:
  "lap_count s = of_nat k \<Longrightarrow> k < 16 \<Longrightarrow> lap_count (save_lap hw s) = of_nat (Suc k)"
  by (cases "sample hw (trace s)") (simp add: save_lap_nat)

lemma trace_save_lap:
  "lap_count s = of_nat k \<Longrightarrow> k < 16 \<Longrightarrow>
   trace (save_lap hw s) = trace s @ sample_events (sample hw (trace s))"
  by (cases "sample hw (trace s)") (simp add: save_lap_nat)

lemma ram_save_lap_other:
  assumes "lap_count s = of_nat k" and "k < 16"
    and "a \<noteq> lap_byte s (3 * k)" "a \<noteq> lap_byte s (3 * k + 1)" "a \<noteq> lap_byte s (3 * k + 2)"
  shows "ram (save_lap hw s) a = ram s a"
  using assms by (cases "sample hw (trace s)") (simp add: save_lap_nat)

lemma ram_save_lap_below:
  assumes "lap_count s = of_nat k" and "k < 16" and "off < 3 * k"
  shows "ram (save_lap hw s) (lap_byte s off) = ram s (lap_byte s off)"
proof (rule ram_save_lap_other [OF assms(1,2)])
  show "lap_byte s off \<noteq> lap_byte s (3 * k)"
    using assms(2,3) by (simp add: lap_byte_eq_iff)
  show "lap_byte s off \<noteq> lap_byte s (3 * k + 1)"
    using assms(2,3) by (simp add: lap_byte_eq_iff)
  show "lap_byte s off \<noteq> lap_byte s (3 * k + 2)"
    using assms(2,3) by (simp add: lap_byte_eq_iff)
qed

lemma ram_save_lap_slot:
  assumes "lap_count s = of_nat k" and "k < 16" and "sample hw (trace s) = (m, sec, t)"
  shows "ram (save_lap hw s) (lap_byte s (3 * k)) = ucast m"
    and "ram (save_lap hw s) (lap_byte s (3 * k + 1)) = ucast sec"
    and "ram (save_lap hw s) (lap_byte s (3 * k + 2)) = ucast t"
  using assms(2) by (simp_all add: save_lap_nat [OF assms] lap_byte_eq_iff)

lemma read_new_lap:
  assumes "lap_count s = of_nat k" and "k < 16"
  shows "read_lap (of_nat k) (save_lap hw s) = narrow (sample hw (trace s))"
proof (cases "sample hw (trace s)")
  case (fields m sec t)
  have "read_lap (of_nat k) (save_lap hw s) =
          (ram (save_lap hw s) (lap_byte s (3 * k)),
           ram (save_lap hw s) (lap_byte s (3 * k + 1)),
           ram (save_lap hw s) (lap_byte s (3 * k + 2)))"
    using read_lap_nat [OF lap_count_save_lap [OF assms], of k hw] assms(2)
    by (simp add: lap_byte_save_lap)
  then show ?thesis
    unfolding ram_save_lap_slot [OF assms fields] fields narrow_def by simp
qed

lemma read_old_lap:
  assumes "lap_count s = of_nat k" and "k < 16" and "i < k"
  shows "read_lap (of_nat i) (save_lap hw s) = read_lap (of_nat i) s"
proof -
  have "read_lap (of_nat i) (save_lap hw s) =
          (ram (save_lap hw s) (lap_byte s (3 * i)),
           ram (save_lap hw s) (lap_byte s (3 * i + 1)),
           ram (save_lap hw s) (lap_byte s (3 * i + 2)))"
    using read_lap_nat [OF lap_count_save_lap [OF assms(1,2)], of i hw] assms(2,3)
    by (simp add: lap_byte_save_lap)
  also have "\<dots> = (ram s (lap_byte s (3 * i)), ram s (lap_byte s (3 * i + 1)),
                    ram s (lap_byte s (3 * i + 2)))"
    using assms(3) by (simp add: ram_save_lap_below [OF assms(1,2)])
  also have "\<dots> = read_lap (of_nat i) s"
    using read_lap_nat [OF assms(1) _ assms(3)] assms(2) by simp
  finally show ?thesis .
qed

lemma appends_0: "appends hw 0 s = s"
  by (simp add: appends_def)

lemma appends_Suc: "appends hw (Suc n) s = save_lap hw (appends hw n s)"
  by (simp add: appends_def)

lemma lap_count_appends:
  assumes "lap_count s = 0"
  shows "lap_count (appends hw n s) = of_nat (min n 16)"
proof (induction n)
  case 0
  show ?case using assms by (simp add: appends_0)
next
  case (Suc n)
  show ?case
  proof (cases "n < 16")
    case True
    with Suc have "lap_count (appends hw n s) = of_nat n" by simp
    from lap_count_save_lap [OF this True] True show ?thesis
      by (simp add: appends_Suc)
  next
    case False
    with Suc have "lap_count (appends hw n s) = 16" by (simp add: min_def)
    then have "MAX_LAPS \<le>s lap_count (appends hw n s)"
      by (simp add: MAX_LAPS_def)
    with Suc False show ?thesis
      by (simp add: appends_Suc save_lap_full min_def)
  qed
qed

section \<open>Sequences of appends\<close>

lemma lap_mem_appends: "lap_mem (appends hw n s) = lap_mem s"
  by (induction n) (simp_all add: appends_0 appends_Suc lap_mem_save_lap)

lemma appends_full:
  assumes "lap_count s = 0" and "16 \<le> n"
  shows "appends hw (Suc n) s = appends hw n s"
proof -
  from assms have "lap_count (appends hw n s) = 16"
    by (simp add: lap_count_appends min_def)
  then show ?thesis by (simp add: appends_Suc save_lap_full MAX_LAPS_def)
qed

lemma read_lap_appends:
  assumes "lap_count s = 0" and "i < min n 16"
  shows "read_lap (of_nat i) (appends hw n s) = narrow (sample hw (trace (appends hw i s)))"
  using assms(2)
proof (induction n)
  case 0
  then show ?case by simp
next
  case (Suc n)
  show ?case
  proof (cases "n < 16")
    case False
    with Suc show ?thesis by (simp add: appends_full [OF assms(1)])
  next
    case True
    then have cnt: "lap_count (appends hw n s) = of_nat n"
      by (simp add: lap_count_appends [OF assms(1)])
    show ?thesis
    proof (cases "i = n")
      case True
      with read_new_lap [OF cnt \<open>n < 16\<close>] show ?thesis by (simp add: appends_Suc)
    next
      case False
      with Suc.prems have "i < n" by simp
      with read_old_lap [OF cnt \<open>n < 16\<close> this] Suc.IH \<open>n < 16\<close> show ?thesis
        by (simp add: appends_Suc)
    qed
  qed
qed

lemma trace_appends_Suc:
  assumes "lap_count s = 0" and "i < 16"
  shows "trace (appends hw (Suc i) s) =
           trace (appends hw i s) @ sample_events (sample hw (trace (appends hw i s)))"
proof -
  from assms have "lap_count (appends hw i s) = of_nat i"
    by (simp add: lap_count_appends)
  from trace_save_lap [OF this assms(2)] show ?thesis by (simp add: appends_Suc)
qed

lemma unat_widen: "unat (ucast (w::u8) :: u32) = unat w"
proof -
  have "unat w < 2 ^ 8" using unsigned_less [of w, where ?'a = nat] by simp
  then have "unat w < 2 ^ 32" by simp
  then show ?thesis by (simp add: unsigned_ucast_eq take_bit_nat_eq_self)
qed

lemma ucast_back: "(v::u32) \<le> 255 \<Longrightarrow> (ucast (ucast v :: u8) :: u32) = v"
proof -
  assume "v \<le> 255"
  then have "unat v \<le> 255" by (simp add: word_le_nat_alt)
  then have "unat (ucast (ucast v :: u8) :: u32) = unat v"
    by (simp add: unat_widen unat_narrow)
  then show ?thesis by (simp only: word_unat_eq_iff)
qed


lemma widen_narrow: "fits_u8 v \<Longrightarrow> widen (narrow v) = v"
  by (cases v) (simp add: fits_u8_def widen_def narrow_def ucast_back)

section \<open>Sequences of operations\<close>

lemma unat_small: "k \<le> 16 \<Longrightarrow> unat (of_nat k :: int32) = k"
  by (simp add: unat_of_nat)

lemma lap_inv_iff: "lap_inv s \<longleftrightarrow> unat (lap_count s) \<le> 16"
proof
  assume "lap_inv s"
  then obtain k where "k \<le> 16" "lap_count s = of_nat k"
    unfolding lap_inv_def MAX_LAPS_def by (elim conjE count_as_nat)
  then show "unat (lap_count s) \<le> 16" by (simp add: unat_small)
next
  assume small: "unat (lap_count s) \<le> 16"
  have "lap_count s = of_nat (unat (lap_count s))" by simp
  moreover have "(of_nat 0 :: int32) \<le>s of_nat (unat (lap_count s))"
    using small by (subst sle_of_nat) simp_all
  moreover have "(of_nat (unat (lap_count s)) :: int32) \<le>s of_nat 16"
    using small by (subst sle_of_nat) simp_all
  ultimately show "lap_inv s" by (simp add: lap_inv_def MAX_LAPS_def)
qed

lemma save_lap_frame:
  assumes "lap_count s = of_nat k" and "k \<le> 16"
  shows "\<exists>k'. lap_count (save_lap hw s) = of_nat k' \<and> k \<le> k' \<and> k' \<le> 16 \<and>
           (\<forall>a. ram (save_lap hw s) a \<noteq> ram s a \<longrightarrow>
              (\<exists>off. 3 * k \<le> off \<and> off < 3 * k' \<and> a = lap_byte s off))"
proof (cases "k = 16")
  case True
  with assms have "save_lap hw s = s" by (simp add: save_lap_full MAX_LAPS_def)
  with assms show ?thesis by auto
next
  case False
  with assms have free: "k < 16" by simp
  have "\<exists>off. 3 * k \<le> off \<and> off < 3 * Suc k \<and> a = lap_byte s off"
    if "ram (save_lap hw s) a \<noteq> ram s a" for a
  proof -
    from that ram_save_lap_other [OF assms(1) free, of a hw]
    consider "a = lap_byte s (3 * k)" | "a = lap_byte s (3 * k + 1)" | "a = lap_byte s (3 * k + 2)"
      by blast
    then show ?thesis
    proof cases
      case 1 then show ?thesis by (intro exI [of _ "3 * k"]) simp
    next
      case 2 then show ?thesis by (intro exI [of _ "3 * k + 1"]) simp
    next
      case 3 then show ?thesis by (intro exI [of _ "3 * k + 2"]) simp
    qed
  qed
  with lap_count_save_lap [OF assms(1) free, of hw] free show ?thesis
    by (intro exI [of _ "Suc k"]) simp
qed

lemma ops_frame:
  assumes "lap_count s = of_nat k" and "k \<le> 16"
  shows "\<exists>k'. lap_count (fold (lap_apply hw) ops s) = of_nat k' \<and> k \<le> k' \<and> k' \<le> 16 \<and>
           lap_mem (fold (lap_apply hw) ops s) = lap_mem s \<and>
           (\<forall>a. ram (fold (lap_apply hw) ops s) a \<noteq> ram s a \<longrightarrow>
              (\<exists>off. 3 * k \<le> off \<and> off < 3 * k' \<and> a = lap_byte s off))"
  using assms
proof (induction ops arbitrary: s k)
  case Nil
  then show ?case by auto
next
  case (Cons op ops)
  show ?case
  proof (cases op)
    case (Read i)
    with Cons.IH [OF Cons.prems] show ?thesis by simp
  next
    case Append
    from save_lap_frame [OF Cons.prems, of hw] obtain k1 where
      k1: "lap_count (save_lap hw s) = of_nat k1" "k \<le> k1" "k1 \<le> 16" and
      f1: "\<And>a. ram (save_lap hw s) a \<noteq> ram s a \<Longrightarrow>
                \<exists>off. 3 * k \<le> off \<and> off < 3 * k1 \<and> a = lap_byte s off"
      by blast
    let ?s' = "fold (lap_apply hw) ops (save_lap hw s)"
    from Cons.IH [OF k1(1,3)] obtain k2 where
      k2: "lap_count ?s' = of_nat k2" "k1 \<le> k2" "k2 \<le> 16"
        "lap_mem ?s' = lap_mem (save_lap hw s)" and
      f2: "\<And>a. ram ?s' a \<noteq> ram (save_lap hw s) a \<Longrightarrow>
                \<exists>off. 3 * k1 \<le> off \<and> off < 3 * k2 \<and> a = lap_byte s off"
      unfolding lap_byte_save_lap by blast
    have "\<exists>off. 3 * k \<le> off \<and> off < 3 * k2 \<and> a = lap_byte s off"
      if "ram ?s' a \<noteq> ram s a" for a
    proof (cases "ram ?s' a = ram (save_lap hw s) a")
      case True
      with that f1 [of a] obtain off where "3 * k \<le> off" "off < 3 * k1" "a = lap_byte s off"
        by auto
      with k2(2) show ?thesis by (intro exI [of _ off]) simp
    next
      case False
      with f2 [of a] obtain off where "3 * k1 \<le> off" "off < 3 * k2" "a = lap_byte s off"
        by auto
      with k1(2) show ?thesis by (intro exI [of _ off]) simp
    qed
    with k1 k2 Append show ?thesis
      by (intro exI [of _ k2]) (simp add: lap_mem_save_lap)
  qed
qed


lemma lap_byte_cong: "lap_mem s' = lap_mem s \<Longrightarrow> lap_byte s' = lap_byte s"
  by (rule ext) (simp add: lap_byte_def)

section \<open>The control loop, step by step\<close>

lemma sless_of_nat:
  "i < 2 ^ 31 \<Longrightarrow> k < 2 ^ 31 \<Longrightarrow> ((of_nat i :: int32) <s of_nat k) = (i < k)"
  by (simp add: word_sless_alt sint_of_nat_small)

lemma main_init_eq: "main_init s = s\<lparr>trace := trace s @ init_pulses\<rparr>"
  by (simp add: main_init_def stopwatch_reset_write_def stopwatch_start_write_def
      csr_write_def init_pulses_def)

lemma stop_eq:
  "stopwatch_stop_write 0 (stopwatch_stop_write 1 s) = s\<lparr>trace := trace s @ stop_pulse\<rparr>"
  by (simp add: stopwatch_stop_write_def csr_write_def stop_pulse_def)

lemma main_cycle_nat:
  assumes "lap_count s = of_nat k" and "k < 16"
  shows "main_cycle hw s =
           (k = 15, narrow (sample hw (trace s)),
            if k = 15 then (save_lap hw s)\<lparr>trace := trace (save_lap hw s) @ stop_pulse\<rparr>
            else save_lap hw s)"
proof -
  have cnt: "lap_count (save_lap hw s) = of_nat (Suc k)"
    by (rule lap_count_save_lap [OF assms])
  then have idx: "lap_count (save_lap hw s) - 1 = of_nat k" by simp
  have full: "(MAX_LAPS \<le>s lap_count (save_lap hw s)) = (k = 15)"
    unfolding cnt using assms(2) full_of_nat [of "Suc k"] by auto
  show ?thesis
    unfolding main_cycle_def delay_ms_id Let_def idx full read_new_lap [OF assms] stop_eq
    by simp
qed

lemma main_run_0: "main_run hw 0 s = (INIT, s)"
  by (simp add: main_run_def)

lemma main_run_Suc: "main_run hw (Suc n) s = main_step hw (main_run hw n s)"
  by (simp add: main_run_def)

lemma main_run_running:
  assumes "lap_count s0 = 0" and "k < 16"
  shows "main_run hw (Suc k) s0 = (RUNNING, appends hw k (main_init s0))"
  using assms(2)
proof (induction k)
  case 0
  show ?case by (simp add: main_run_Suc main_run_0 appends_0)
next
  case (Suc k)
  have "lap_count (main_init s0) = 0" using assms(1) by (simp add: main_init_eq)
  then have "lap_count (appends hw k (main_init s0)) = of_nat k"
    using Suc.prems by (simp add: lap_count_appends)
  from main_cycle_nat [OF this] Suc show ?case
    by (simp add: main_run_Suc [of hw "Suc k"] appends_Suc)
qed

lemma main_run_17:
  assumes "lap_count s0 = 0"
  shows "main_run hw 17 s0 = (HALTED, halted_state hw s0)"
proof -
  have "lap_count (main_init s0) = 0" using assms(1) by (simp add: main_init_eq)
  then have "lap_count (appends hw 15 (main_init s0)) = of_nat 15"
    by (simp add: lap_count_appends)
  from main_cycle_nat [OF this, of hw] main_run_running [OF assms, of 15 hw]
  have "main_step hw (main_run hw 16 s0) = (HALTED, halted_state hw s0)"
    by (simp add: halted_state_def appends_Suc [of hw 15, symmetric])
  then show ?thesis
    using main_run_Suc [of hw 16 s0] by simp
qed

lemma main_run_halted:
  assumes "lap_count s0 = 0"
  shows "main_run hw (17 + n) s0 = (HALTED, halted_state hw s0)"
proof (induction n)
  case 0
  show ?case by (simp add: main_run_17 [OF assms])
next
  case (Suc n)
  have "main_run hw (17 + Suc n) s0 = main_step hw (main_run hw (17 + n) s0)"
    using main_run_Suc [of hw "17 + n" s0] by simp
  with Suc show ?case by simp
qed

lemma trace_save_lap_any:
  "\<exists>ext. trace (save_lap hw s) = trace s @ ext \<and> filter is_command ext = []"
  by (simp add: save_lap_def Let_def stopwatch_minutes_read_def stopwatch_seconds_read_def
      stopwatch_ticks_read_def csr_read_def lap_mem_set_def)

lemma trace_appends_any:
  "\<exists>ext. trace (appends hw n s) = trace s @ ext \<and> filter is_command ext = []"
proof (induction n)
  case 0
  show ?case by (simp add: appends_0)
next
  case (Suc n)
  then obtain ext where ext: "trace (appends hw n s) = trace s @ ext" "filter is_command ext = []"
    by blast
  from trace_save_lap_any [of hw "appends hw n s"] obtain ext' where
    "trace (appends hw (Suc n) s) = trace (appends hw n s) @ ext'" "filter is_command ext' = []"
    unfolding appends_Suc by blast
  with ext show ?case by (intro exI [of _ "ext @ ext'"]) simp
qed

lemma no_command_no_reset_or_start:
  "filter is_command ext = [] \<Longrightarrow> filter is_reset_or_start ext = []"
proof (induction ext)
  case Nil
  show ?case by simp
next
  case (Cons e ext)
  then show ?case by (cases e) (simp_all split: if_splits)
qed


lemma read_lap_trace_update: "read_lap i (s\<lparr>trace := tr\<rparr>) = read_lap i s"
  by (simp add: read_lap_def lap_mem_get_def)

lemma main_run_cycle:
  assumes "lap_count s0 = 0" and "k < 16"
  shows "snd (main_run hw (Suc (Suc k)) s0) =
           (if k = 15
            then (save_lap hw (snd (main_run hw (Suc k) s0)))
                   \<lparr>trace := trace (save_lap hw (snd (main_run hw (Suc k) s0))) @ stop_pulse\<rparr>
            else save_lap hw (snd (main_run hw (Suc k) s0)))"
proof (cases "k = 15")
  case True
  have "Suc (Suc 15) = 17" by simp
  with True main_run_running [OF assms, of hw] main_run_17 [OF assms(1), of hw] show ?thesis
    by (simp add: halted_state_def appends_Suc [of hw 15, symmetric])
next
  case False
  with assms(2) have "Suc k < 16" by simp
  from main_run_running [OF assms(1) this, of hw] main_run_running [OF assms, of hw] False
  show ?thesis by (simp add: appends_Suc)
qed

lemma main_run_records:
  assumes "lap_count s0 = 0" and "k < 16"
  shows "read_lap (of_nat k) (snd (main_run hw (Suc (Suc k)) s0)) =
           narrow (sample hw (trace (snd (main_run hw (Suc k) s0))))"
    and "\<forall>i<k. read_lap (of_nat i) (snd (main_run hw (Suc (Suc k)) s0)) =
                 read_lap (of_nat i) (snd (main_run hw (Suc k) s0))"
    and "\<forall>a. a \<noteq> lap_byte (snd (main_run hw (Suc k) s0)) (3 * k) \<and>
              a \<noteq> lap_byte (snd (main_run hw (Suc k) s0)) (3 * k + 1) \<and>
              a \<noteq> lap_byte (snd (main_run hw (Suc k) s0)) (3 * k + 2) \<longrightarrow>
              ram (snd (main_run hw (Suc (Suc k)) s0)) a = ram (snd (main_run hw (Suc k) s0)) a"
proof -
  let ?s = "snd (main_run hw (Suc k) s0)"
  have empty: "lap_count (main_init s0) = 0" using assms(1) by (simp add: main_init_eq)
  have s: "?s = appends hw k (main_init s0)"
    using main_run_running [OF assms, of hw] by simp
  have cnt: "lap_count ?s = of_nat k"
    unfolding s using assms(2) by (simp add: lap_count_appends [OF empty])
  note step = main_run_cycle [OF assms, of hw]
  show "read_lap (of_nat k) (snd (main_run hw (Suc (Suc k)) s0)) = narrow (sample hw (trace ?s))"
    unfolding step using read_new_lap [OF cnt assms(2), of hw]
    by (auto simp add: read_lap_trace_update)
  show "\<forall>i<k. read_lap (of_nat i) (snd (main_run hw (Suc (Suc k)) s0)) = read_lap (of_nat i) ?s"
    unfolding step using read_old_lap [OF cnt assms(2), of _ hw]
    by (auto simp add: read_lap_trace_update)
  show "\<forall>a. a \<noteq> lap_byte ?s (3 * k) \<and> a \<noteq> lap_byte ?s (3 * k + 1) \<and>
            a \<noteq> lap_byte ?s (3 * k + 2) \<longrightarrow>
            ram (snd (main_run hw (Suc (Suc k)) s0)) a = ram ?s a"
    unfolding step using ram_save_lap_other [OF cnt assms(2), of _ hw]
    by auto
qed

lemma main_run_all_records:
  assumes "lap_count s0 = 0" and "i < 16"
  shows "read_lap (of_nat i) (snd (main_run hw 17 s0)) =
           narrow (sample hw (trace (snd (main_run hw (Suc i) s0))))"
proof -
  have empty: "lap_count (main_init s0) = 0" using assms(1) by (simp add: main_init_eq)
  from assms(2) have "i < min 16 16" by simp
  from read_lap_appends [OF empty this, of hw] main_run_running [OF assms, of hw]
  show ?thesis
    by (simp add: main_run_17 [OF assms(1)] halted_state_def read_lap_trace_update)
qed

section \<open>Concrete runs\<close>

lemma demo_appends_2:
  "trace (appends (counter_from 0) 2 (boot 0 (\<lambda>a. 0))) =
     [CsrRead Minutes 0, CsrRead Seconds 1, CsrRead Ticks 2,
      CsrRead Minutes 3, CsrRead Seconds 4, CsrRead Ticks 5]"
  by (simp add: appends_def eval_nat_numeral save_lap_def boot_def counter_from_def
      MAX_LAPS_def word_sle_eq Let_def stopwatch_minutes_read_def stopwatch_seconds_read_def
      stopwatch_ticks_read_def csr_read_def lap_mem_set_def)

lemma demo_ops:
  "fold (lap_apply (counter_from 7)) [Append, Read 1, Append, Read (- 1)] (store_of 2) =
     \<lparr>lap_mem = 0,
      ram = (\<lambda>a. 0)(6 := 7, 7 := 8, 8 := 9, 9 := 10, 10 := 11, 11 := 12),
      lap_count = 4,
      trace = [CsrRead Minutes 7, CsrRead Seconds 8, CsrRead Ticks 9,
               CsrRead Minutes 10, CsrRead Seconds 11, CsrRead Ticks 12]\<rparr>"
  by (simp add: store_of_def save_lap_def counter_from_def LAP_RECORD_SIZE_def
      MAX_LAPS_def word_sle_eq Let_def stopwatch_minutes_read_def stopwatch_seconds_read_def
      stopwatch_ticks_read_def csr_read_def lap_mem_set_def)

lemma demo_main_run_2:
  "main_run (counter_from 0) 2 (boot 0 (\<lambda>a. 0)) =
     (RUNNING,
      \<lparr>lap_mem = 0, ram = (\<lambda>a. 0)(0 := 4, 1 := 5, 2 := 6), lap_count = 1,
       trace = [CsrWrite Reset 1, CsrWrite Reset 0, CsrWrite Start 1, CsrWrite Start 0,
                CsrRead Minutes 4, CsrRead Seconds 5, CsrRead Ticks 6]\<rparr>)"
proof -
  have "main_run (counter_from 0) (Suc (Suc 0)) (boot 0 (\<lambda>a. 0)) =
          main_step (counter_from 0) (main_step (counter_from 0) (INIT, boot 0 (\<lambda>a. 0)))"
    by (simp only: main_run_Suc main_run_0)
  then have "main_run (counter_from 0) 2 (boot 0 (\<lambda>a. 0)) =
          main_step (counter_from 0) (main_step (counter_from 0) (INIT, boot 0 (\<lambda>a. 0)))"
    by (simp only: numeral_2_eq_2)
  then show ?thesis
    by (simp add: main_cycle_def delay_ms_id main_init_eq
        init_pulses_def boot_def save_lap_def counter_from_def LAP_RECORD_SIZE_def
        MAX_LAPS_def word_sle_eq Let_def stopwatch_minutes_read_def stopwatch_seconds_read_def
        stopwatch_ticks_read_def csr_read_def lap_mem_set_def)
qed

section \<open>The lap store\<close>

text \<open>
  C2. A call of \<^verbatim>\<open>save_lap\<close> on a store that holds \<^verbatim>\<open>MAX_LAPS\<close> records (or claims
  more) returns the state as it was: count, memory and register log are untouched, and
  there is no error result. On a store with room the count goes up by exactly one.
\<close>

theorem save_lap_capacity:
  "(MAX_LAPS \<le>s lap_count s \<longrightarrow> save_lap hw s = s) \<and>
   (lap_count s <s MAX_LAPS \<longrightarrow>
      sint (lap_count (save_lap hw s)) = sint (lap_count s) + 1)"
proof (intro conjI impI)
  assume "MAX_LAPS \<le>s lap_count s"
  then show "save_lap hw s = s" by (rule save_lap_full)
next
  assume free: "lap_count s <s MAX_LAPS"
  then have small: "sint (lap_count s) < 16"
    by (simp add: word_sless_alt MAX_LAPS_def)
  obtain m sec t where "sample hw (trace s) = (m, sec, t)"
    by (cases "sample hw (trace s)")
  with free have "lap_count (save_lap hw s) = lap_count s + 1"
    by (simp add: save_lap_free not_full_iff)
  with small show "sint (lap_count (save_lap hw s)) = sint (lap_count s) + 1"
    by (simp add: sint_succ)
qed

theorem save_lap_capacity_witness:
  "MAX_LAPS \<le>s lap_count (store_of 16) \<and>
   save_lap (counter_from 0) (store_of 16) = store_of 16 \<and>
   lap_count (store_of 5) <s MAX_LAPS \<and>
   sint (lap_count (save_lap (counter_from 0) (store_of 5))) = 6"
  using save_lap_capacity [of "store_of 16" "counter_from 0"]
    save_lap_capacity [of "store_of 5" "counter_from 0"]
  by (simp add: store_of_def MAX_LAPS_def)

text \<open>
  C3. From an empty store, \<open>n\<close> calls of \<^verbatim>\<open>save_lap\<close> leave the count at the smaller
  of \<open>n\<close> and 16.
\<close>

theorem count_after_appends:
  assumes "lap_count s = 0"
  shows "sint (lap_count (appends hw n s)) = int (min n 16)"
  using lap_count_appends [OF assms, of hw n] by (simp add: sint_of_nat_small)

theorem count_after_appends_witness:
  "lap_count (boot 0 (\<lambda>a. 0)) = 0 \<and>
   sint (lap_count (appends (counter_from 0) 20 (boot 0 (\<lambda>a. 0)))) = 16 \<and>
   sint (lap_count (appends (counter_from 0) 7 (boot 0 (\<lambda>a. 0)))) = 7"
  using count_after_appends [of "boot 0 (\<lambda>a. 0)" "counter_from 0" 20]
    count_after_appends [of "boot 0 (\<lambda>a. 0)" "counter_from 0" 7]
  by (simp add: boot_def)

text \<open>
  C7. When \<^verbatim>\<open>save_lap\<close> stores a record, it reads minutes, seconds and ticks once
  each, in this order, and each stored byte is the value read reduced modulo 256,
  whatever the values are: nothing restricts \<open>hw\<close>.
\<close>

theorem stored_fields_mod_256:
  assumes "lap_count s <s MAX_LAPS" and "sample hw (trace s) = (m, sec, t)"
  shows "trace (save_lap hw s) =
           trace s @ [CsrRead Minutes m, CsrRead Seconds sec, CsrRead Ticks t] \<and>
         unat (lap_mem_get (lap_count s * LAP_RECORD_SIZE + 0) (save_lap hw s))
           = unat m mod 256 \<and>
         unat (lap_mem_get (lap_count s * LAP_RECORD_SIZE + 1) (save_lap hw s))
           = unat sec mod 256 \<and>
         unat (lap_mem_get (lap_count s * LAP_RECORD_SIZE + 2) (save_lap hw s))
           = unat t mod 256"
proof -
  from assms(1) have "\<not> MAX_LAPS \<le>s lap_count s" by (simp add: not_full_iff)
  from save_lap_free [OF this assms(2)] show ?thesis
    by (simp add: lap_mem_get_def LAP_RECORD_SIZE_def unat_narrow)
qed

theorem stored_fields_mod_256_witness:
  "lap_count (store_of 5) <s MAX_LAPS \<and>
   sample (counter_from 300) (trace (store_of 5)) = (300, 301, 302) \<and>
   unat (lap_mem_get 15 (save_lap (counter_from 300) (store_of 5))) = 44 \<and>
   unat (lap_mem_get 16 (save_lap (counter_from 300) (store_of 5))) = 45 \<and>
   unat (lap_mem_get 17 (save_lap (counter_from 300) (store_of 5))) = 46"
  using stored_fields_mod_256 [of "store_of 5" "counter_from 300" 300 301 302]
  by (simp add: store_of_def sample_def counter_from_def MAX_LAPS_def LAP_RECORD_SIZE_def)

text \<open>
  C1, at an input where it fails. With an empty store at \<^verbatim>\<open>0x40000000\<close> and the index
  \<open>- 1\<close> the guard \<^verbatim>\<open>index >= lap_count\<close> does not fire, and \<^verbatim>\<open>read_lap\<close> returns the
  three bytes below \<^verbatim>\<open>lap_mem\<close>, the first of which holds 42 here, instead of the zero
  record. (For an index at or above the count the result is the zero record, and for an
  index from 0 to below the count it is the stored record: \<open>read_lap_beyond\<close>,
  \<open>read_lap_nat\<close>.)
\<close>

theorem read_lap_negative_index:
  "lap_count (boot 0x40000000 (\<lambda>a. if a = 0x3FFFFFFD then 42 else 0)) = 0 \<and>
   read_lap (- 1) (boot 0x40000000 (\<lambda>a. if a = 0x3FFFFFFD then 42 else 0)) = (42, 0, 0)"
  by (simp add: read_lap_def boot_def lap_mem_get_def LAP_RECORD_SIZE_def word_sle_eq)

text \<open>
  C4, amended. After any number \<open>n\<close> of calls of \<^verbatim>\<open>save_lap\<close> on an empty store, and
  for every \<open>i\<close> below the count \<open>min n 16\<close>: the call number \<open>i\<close> (counted from 0) read
  the sample \<open>sample hw (trace (appends hw i s))\<close> from the three registers, and
  \<^verbatim>\<open>read_lap\<close> at index \<open>i\<close> returns this sample narrowed to the three
  \<^verbatim>\<open>unsigned char\<close> fields, that is each value modulo 256. When the three values are
  below 256, the record read back is exactly the sample.
\<close>

theorem lap_roundtrip:
  assumes "lap_count s = 0" and "i < min n 16"
  shows "trace (appends hw (Suc i) s) =
           trace (appends hw i s) @ sample_events (sample hw (trace (appends hw i s))) \<and>
         read_lap (of_nat i) (appends hw n s) = narrow (sample hw (trace (appends hw i s))) \<and>
         (fits_u8 (sample hw (trace (appends hw i s))) \<longrightarrow>
            widen (read_lap (of_nat i) (appends hw n s)) = sample hw (trace (appends hw i s)))"
  using assms
  by (simp add: trace_appends_Suc read_lap_appends widen_narrow)

theorem lap_roundtrip_witness:
  "lap_count (boot 0 (\<lambda>a. 0)) = 0 \<and> (2::nat) < min 20 16 \<and>
   fits_u8 (6, 7, 8) \<and>
   read_lap 2 (appends (counter_from 0) 20 (boot 0 (\<lambda>a. 0))) = (6, 7, 8) \<and>
   widen (read_lap 2 (appends (counter_from 0) 20 (boot 0 (\<lambda>a. 0)))) = (6, 7, 8)"
proof -
  have empty: "lap_count (boot 0 (\<lambda>a. 0)) = 0" by (simp add: boot_def)
  from lap_roundtrip [OF empty, of 2 20 "counter_from 0"] empty show ?thesis
    by (simp add: demo_appends_2 sample_def counter_from_def narrow_def fits_u8_def widen_def)
qed


text \<open>
  C4 as worded, with the record equal to the values read and no bound on them, fails. A
  peripheral that shows 254, 255 and 256 on the first append has its ticks value stored
  as 0, and \<^verbatim>\<open>read_lap\<close> at index 0 gives 254, 255, 0.
\<close>

theorem lap_roundtrip_exact_counterexample:
  "lap_count (store_of 0) = 0 \<and> (0::nat) < min (Suc 0) 16 \<and>
   sample (counter_from 254) (trace (appends (counter_from 254) 0 (store_of 0)))
     = (254, 255, 256) \<and>
   read_lap (of_nat 0) (appends (counter_from 254) (Suc 0) (store_of 0)) = (254, 255, 0) \<and>
   widen (read_lap (of_nat 0) (appends (counter_from 254) (Suc 0) (store_of 0)))
     \<noteq> sample (counter_from 254) (trace (appends (counter_from 254) 0 (store_of 0)))"
  by (simp add: appends_def store_of_def sample_def counter_from_def save_lap_def
      read_lap_def lap_mem_get_def lap_mem_set_def LAP_RECORD_SIZE_def MAX_LAPS_def
      word_sle_eq Let_def stopwatch_minutes_read_def stopwatch_seconds_read_def
      stopwatch_ticks_read_def csr_read_def widen_def)

text \<open>
  C6. For every sequence of appends and reads applied to a store with
  \<open>0 \<le> lap_count \<le> MAX_LAPS\<close>: the count stays in this range and does not decrease;
  \<^verbatim>\<open>lap_mem\<close> does not move; every byte that changed lies in the slots of the records
  added, that is at an offset from \<open>3 * count\<close> before up to \<open>3 * count\<close> after; no byte
  of a record present before has changed, and reading any such record gives what it
  gave before; record \<open>i\<close> occupies the bytes \<open>3 * i\<close>, \<open>3 * i + 1\<close>, \<open>3 * i + 2\<close> from
  \<^verbatim>\<open>lap_mem\<close>.
\<close>

theorem lap_store_invariant:
  assumes "lap_inv s"
  shows "lap_inv (fold (lap_apply hw) ops s) \<and>
         lap_count s \<le>s lap_count (fold (lap_apply hw) ops s) \<and>
         lap_mem (fold (lap_apply hw) ops s) = lap_mem s \<and>
         (\<forall>a. ram (fold (lap_apply hw) ops s) a \<noteq> ram s a \<longrightarrow>
              (\<exists>off. 3 * unat (lap_count s) \<le> off \<and>
                     off < 3 * unat (lap_count (fold (lap_apply hw) ops s)) \<and>
                     a = lap_byte s off)) \<and>
         (\<forall>off < 3 * unat (lap_count s).
              ram (fold (lap_apply hw) ops s) (lap_byte s off) = ram s (lap_byte s off)) \<and>
         (\<forall>i < unat (lap_count s).
              read_lap (of_nat i) (fold (lap_apply hw) ops s) = read_lap (of_nat i) s) \<and>
         (\<forall>i < unat (lap_count (fold (lap_apply hw) ops s)).
              read_lap (of_nat i) (fold (lap_apply hw) ops s) =
                (ram (fold (lap_apply hw) ops s) (lap_byte s (3 * i)),
                 ram (fold (lap_apply hw) ops s) (lap_byte s (3 * i + 1)),
                 ram (fold (lap_apply hw) ops s) (lap_byte s (3 * i + 2))))"
proof -
  let ?s' = "fold (lap_apply hw) ops s"
  define k where "k = unat (lap_count s)"
  from assms have k: "lap_count s = of_nat k" "k \<le> 16"
    by (simp_all add: k_def lap_inv_iff)
  from ops_frame [OF k, of hw ops] obtain k' where
    k': "lap_count ?s' = of_nat k'" "k \<le> k'" "k' \<le> 16" and
    mem: "lap_mem ?s' = lap_mem s" and
    frame: "\<And>a. ram ?s' a \<noteq> ram s a \<Longrightarrow>
                \<exists>off. 3 * k \<le> off \<and> off < 3 * k' \<and> a = lap_byte s off"
    by blast
  have uk': "unat (lap_count ?s') = k'"
    using k' by (simp add: unat_small)
  have inv': "lap_inv ?s'"
    using uk' k'(3) by (simp add: lap_inv_iff)
  have mono: "lap_count s \<le>s lap_count ?s'"
    using k k' by (simp add: sle_of_nat)
  have kept: "ram ?s' (lap_byte s off) = ram s (lap_byte s off)" if "off < 3 * k" for off
  proof (rule ccontr)
    assume "ram ?s' (lap_byte s off) \<noteq> ram s (lap_byte s off)"
    from frame [OF this] obtain off' where
      off': "3 * k \<le> off'" "off' < 3 * k'" "lap_byte s off = lap_byte s off'"
      by blast
    from that off'(2) k'(3) k(2) have "off < 2 ^ 32" "off' < 2 ^ 32" by simp_all
    with off'(3) have "off = off'" by (simp add: lap_byte_eq_iff)
    with that off'(1) show False by simp
  qed
  have layout: "read_lap (of_nat i) ?s' =
      (ram ?s' (lap_byte s (3 * i)), ram ?s' (lap_byte s (3 * i + 1)),
       ram ?s' (lap_byte s (3 * i + 2)))" if "i < k'" for i
    using read_lap_nat [OF k'(1) k'(3) that] by (simp only: lap_byte_cong [OF mem])
  have old: "read_lap (of_nat i) ?s' = read_lap (of_nat i) s" if "i < k" for i
  proof -
    from that k'(2) have "i < k'" by simp
    from layout [OF this] that show ?thesis
      by (simp add: kept read_lap_nat [OF k(1) k(2) that])
  qed
  from inv' mono mem frame kept old layout show ?thesis
    unfolding uk' k_def [symmetric] by blast
qed


theorem lap_store_invariant_witness:
  "lap_inv (store_of 2) \<and>
   lap_inv (fold (lap_apply (counter_from 7)) [Append, Read 1, Append, Read (- 1)] (store_of 2)) \<and>
   lap_count (fold (lap_apply (counter_from 7)) [Append, Read 1, Append, Read (- 1)] (store_of 2)) = 4 \<and>
   (5::nat) < 3 * unat (lap_count (store_of 2)) \<and>
   ram (fold (lap_apply (counter_from 7)) [Append, Read 1, Append, Read (- 1)] (store_of 2))
       (lap_byte (store_of 2) 5) = ram (store_of 2) (lap_byte (store_of 2) 5) \<and>
   ram (fold (lap_apply (counter_from 7)) [Append, Read 1, Append, Read (- 1)] (store_of 2))
       (lap_byte (store_of 2) 6) \<noteq> ram (store_of 2) (lap_byte (store_of 2) 6) \<and>
   read_lap 1 (fold (lap_apply (counter_from 7)) [Append, Read 1, Append, Read (- 1)] (store_of 2))
     = read_lap 1 (store_of 2) \<and>
   read_lap 3 (fold (lap_apply (counter_from 7)) [Append, Read 1, Append, Read (- 1)] (store_of 2))
     = (10, 11, 12) \<and>
   (\<exists>off\<ge>6. off < 12 \<and> lap_byte (store_of 2) 6 = lap_byte (store_of 2) off)"
proof -
  define s' where
    "s' = fold (lap_apply (counter_from 7)) [Append, Read 1, Append, Read (- 1)] (store_of 2)"
  have s': "s' = \<lparr>lap_mem = 0,
      ram = (\<lambda>a. 0)(6 := 7, 7 := 8, 8 := 9, 9 := 10, 10 := 11, 11 := 12),
      lap_count = 4,
      trace = [CsrRead Minutes 7, CsrRead Seconds 8, CsrRead Ticks 9,
               CsrRead Minutes 10, CsrRead Seconds 11, CsrRead Ticks 12]\<rparr>"
    unfolding s'_def by (rule demo_ops)
  have inv: "lap_inv (store_of 2)"
    by (simp add: lap_inv_def store_of_def MAX_LAPS_def word_sle_eq)
  have cnt: "unat (lap_count (store_of 2)) = 2" "unat (lap_count s') = 4"
    by (simp_all add: s' store_of_def)
  note all = lap_store_invariant
    [OF inv, of "counter_from 7" "[Append, Read 1, Append, Read (- 1)]", folded s'_def]
  from all have inv': "lap_inv s'" by blast
  from all have "\<forall>off < 3 * unat (lap_count (store_of 2)).
      ram s' (lap_byte (store_of 2) off) = ram (store_of 2) (lap_byte (store_of 2) off)"
    by blast
  then have kept: "ram s' (lap_byte (store_of 2) 5) = ram (store_of 2) (lap_byte (store_of 2) 5)"
    by (simp add: cnt)
  from all have "\<forall>i < unat (lap_count (store_of 2)).
      read_lap (of_nat i) s' = read_lap (of_nat i) (store_of 2)"
    by blast
  from this [rule_format, of 1] have old: "read_lap 1 s' = read_lap 1 (store_of 2)"
    by (simp add: cnt)
  from all have "\<forall>i < unat (lap_count s').
      read_lap (of_nat i) s' =
        (ram s' (lap_byte (store_of 2) (3 * i)), ram s' (lap_byte (store_of 2) (3 * i + 1)),
         ram s' (lap_byte (store_of 2) (3 * i + 2)))"
    by blast
  from this [rule_format, of 3] have new: "read_lap 3 s' = (10, 11, 12)"
    by (simp add: cnt) (simp add: s' lap_byte_def store_of_def)
  have changed: "ram s' (lap_byte (store_of 2) 6) \<noteq> ram (store_of 2) (lap_byte (store_of 2) 6)"
    by (simp add: s' lap_byte_def store_of_def)
  from all changed have
    "\<exists>off. 3 * unat (lap_count (store_of 2)) \<le> off \<and> off < 3 * unat (lap_count s') \<and>
           lap_byte (store_of 2) 6 = lap_byte (store_of 2) off"
    by blast
  then have slot: "\<exists>off\<ge>6. off < 12 \<and> lap_byte (store_of 2) 6 = lap_byte (store_of 2) off"
    by (simp add: cnt)
  have "lap_count s' = 4" by (simp add: s')
  with inv inv' cnt kept changed old new slot show ?thesis
    unfolding s'_def by simp
qed

section \<open>The timing loop\<close>

text \<open>
  C10. \<^verbatim>\<open>delay_ms\<close> returns for every argument and hands back the globals (lap
  count, memory, register log) as they were. The body of its outer loop runs \<open>unat ms\<close>
  times, the body of each inner loop 1000 times; both counters end at \<^verbatim>\<open>0xFFFFFFFF\<close>,
  from the decrement of the last, failing test.
\<close>

theorem delay_ms_returns:
  "delay_ms ms s = s \<and>
   delay_ms_loop ms 0 s = ((- 1, unat ms), s) \<and>
   spin 1000 0 = (- 1, 1000)"
  by (simp add: delay_ms_id delay_ms_loop_result spin_result)

section \<open>The control loop\<close>

text \<open>
  C5. From an empty store \<^verbatim>\<open>main\<close> is at the head of its capture loop after the
  initial step and after each of the next 15 passes: at step \<open>k + 1\<close>, for \<open>k < 16\<close>, the
  control point is \<open>RUNNING\<close> and the store holds \<open>k\<close> records, and the pass that follows
  adds one. The 16th pass reads its sample, writes the stop pulse (1, then 0) and leaves
  the loop: step 17 is \<open>HALTED\<close>. The only commands of the whole run are the reset, start
  and stop pulses, and from step 17 on the state never changes again.

  What a pass does to the globals is one \<^verbatim>\<open>save_lap\<close> (and, in the 16th, the stop
  pulse): pass \<open>k + 1\<close> stores the sample it reads as record \<open>k\<close>, leaves the records
  \<open>0\<close> to \<open>k - 1\<close> as they were, and changes no byte outside the three of record \<open>k\<close>. At
  \<open>HALTED\<close> the store holds the 16 samples of the 16 passes, in order.
\<close>

theorem control_loop_halts:
  assumes "lap_count s0 = 0"
  shows "main_run hw 0 s0 = (INIT, s0) \<and>
         (\<forall>k<16. fst (main_run hw (Suc k) s0) = RUNNING \<and>
                 sint (lap_count (snd (main_run hw (Suc k) s0))) = int k \<and>
                 sint (lap_count (snd (main_run hw (Suc (Suc k)) s0))) = int k + 1) \<and>
         fst (main_run hw 17 s0) = HALTED \<and>
         trace (snd (main_run hw 17 s0)) =
           trace (snd (main_run hw 16 s0))
             @ sample_events (sample hw (trace (snd (main_run hw 16 s0))))
             @ [CsrWrite Stop 1, CsrWrite Stop 0] \<and>
         filter is_command (trace (snd (main_run hw 17 s0))) =
           filter is_command (trace s0)
             @ [CsrWrite Reset 1, CsrWrite Reset 0, CsrWrite Start 1, CsrWrite Start 0,
                CsrWrite Stop 1, CsrWrite Stop 0] \<and>
         (\<forall>n\<ge>17. main_run hw n s0 = main_run hw 17 s0) \<and>
         (\<forall>k<16.
            snd (main_run hw (Suc (Suc k)) s0) =
              (if k = 15
               then (save_lap hw (snd (main_run hw (Suc k) s0)))
                      \<lparr>trace := trace (save_lap hw (snd (main_run hw (Suc k) s0)))
                                 @ [CsrWrite Stop 1, CsrWrite Stop 0]\<rparr>
               else save_lap hw (snd (main_run hw (Suc k) s0))) \<and>
            read_lap (of_nat k) (snd (main_run hw (Suc (Suc k)) s0)) =
              narrow (sample hw (trace (snd (main_run hw (Suc k) s0)))) \<and>
            (\<forall>i<k. read_lap (of_nat i) (snd (main_run hw (Suc (Suc k)) s0)) =
                     read_lap (of_nat i) (snd (main_run hw (Suc k) s0))) \<and>
            (\<forall>a. a \<noteq> lap_byte (snd (main_run hw (Suc k) s0)) (3 * k) \<and>
                 a \<noteq> lap_byte (snd (main_run hw (Suc k) s0)) (3 * k + 1) \<and>
                 a \<noteq> lap_byte (snd (main_run hw (Suc k) s0)) (3 * k + 2) \<longrightarrow>
                 ram (snd (main_run hw (Suc (Suc k)) s0)) a =
                   ram (snd (main_run hw (Suc k) s0)) a)) \<and>
         (\<forall>i<16. read_lap (of_nat i) (snd (main_run hw 17 s0)) =
                  narrow (sample hw (trace (snd (main_run hw (Suc i) s0)))))"
proof -
  let ?s1 = "main_init s0"
  have empty: "lap_count ?s1 = 0" using assms by (simp add: main_init_eq)
  have cnt: "sint (lap_count (appends hw k ?s1)) = int k" if "k \<le> 16" for k
    using that by (simp add: lap_count_appends [OF empty] sint_of_nat_small)
  have cnt17: "lap_count (halted_state hw s0) = 16"
    by (simp add: halted_state_def lap_count_appends [OF empty])
  have running: "fst (main_run hw (Suc k) s0) = RUNNING \<and>
                 sint (lap_count (snd (main_run hw (Suc k) s0))) = int k \<and>
                 sint (lap_count (snd (main_run hw (Suc (Suc k)) s0))) = int k + 1"
    if "k < 16" for k
  proof (cases "k = 15")
    case True
    with main_run_running [OF assms that, of hw] main_run_17 [OF assms, of hw] cnt [of 15] cnt17
    show ?thesis by simp
  next
    case False
    with that have "Suc k < 16" by simp
    from main_run_running [OF assms this, of hw] main_run_running [OF assms that, of hw]
      cnt [of k] cnt [of "Suc k"] that
    show ?thesis by simp
  qed
  have halted: "main_run hw n s0 = main_run hw 17 s0" if "17 \<le> n" for n
    using main_run_halted [OF assms, of hw "n - 17"] that main_run_17 [OF assms, of hw]
    by simp
  have tr: "trace (snd (main_run hw 17 s0)) =
      trace (snd (main_run hw 16 s0))
        @ sample_events (sample hw (trace (snd (main_run hw 16 s0))))
        @ [CsrWrite Stop 1, CsrWrite Stop 0]"
    using main_run_running [OF assms, of 15 hw] trace_appends_Suc [OF empty, of 15 hw]
    by (simp add: main_run_17 [OF assms] halted_state_def stop_pulse_def)
  from trace_appends_any [of hw 16 ?s1] obtain ext where
    "trace (appends hw 16 ?s1) = trace ?s1 @ ext" "filter is_command ext = []"
    by blast
  then have cmds: "filter is_command (trace (snd (main_run hw 17 s0))) =
      filter is_command (trace s0)
        @ [CsrWrite Reset 1, CsrWrite Reset 0, CsrWrite Start 1, CsrWrite Start 0,
           CsrWrite Stop 1, CsrWrite Stop 0]"
    by (simp add: main_run_17 [OF assms] halted_state_def stop_pulse_def main_init_eq
        init_pulses_def)
  note step = main_run_cycle [OF assms, of _ hw, unfolded stop_pulse_def]
  note recs = main_run_records [OF assms, of _ hw]
  note all16 = main_run_all_records [OF assms, of _ hw]
  have first: "main_run hw 0 s0 = (INIT, s0)" by (rule main_run_0)
  have last: "fst (main_run hw 17 s0) = HALTED" by (simp add: main_run_17 [OF assms])
  from running have run: "\<forall>k<16. fst (main_run hw (Suc k) s0) = RUNNING \<and>
      sint (lap_count (snd (main_run hw (Suc k) s0))) = int k \<and>
      sint (lap_count (snd (main_run hw (Suc (Suc k)) s0))) = int k + 1"
    by blast
  from halted have stay: "\<forall>n\<ge>17. main_run hw n s0 = main_run hw 17 s0"
    by blast
  have cyc: "\<forall>k<16.
      snd (main_run hw (Suc (Suc k)) s0) =
        (if k = 15
         then (save_lap hw (snd (main_run hw (Suc k) s0)))
                \<lparr>trace := trace (save_lap hw (snd (main_run hw (Suc k) s0)))
                           @ [CsrWrite Stop 1, CsrWrite Stop 0]\<rparr>
         else save_lap hw (snd (main_run hw (Suc k) s0))) \<and>
      read_lap (of_nat k) (snd (main_run hw (Suc (Suc k)) s0)) =
        narrow (sample hw (trace (snd (main_run hw (Suc k) s0)))) \<and>
      (\<forall>i<k. read_lap (of_nat i) (snd (main_run hw (Suc (Suc k)) s0)) =
               read_lap (of_nat i) (snd (main_run hw (Suc k) s0))) \<and>
      (\<forall>a. a \<noteq> lap_byte (snd (main_run hw (Suc k) s0)) (3 * k) \<and>
           a \<noteq> lap_byte (snd (main_run hw (Suc k) s0)) (3 * k + 1) \<and>
           a \<noteq> lap_byte (snd (main_run hw (Suc k) s0)) (3 * k + 2) \<longrightarrow>
           ram (snd (main_run hw (Suc (Suc k)) s0)) a =
             ram (snd (main_run hw (Suc k) s0)) a)"
  proof (intro allI impI)
    fix k :: nat
    assume k: "k < 16"
    from step [OF k] recs(1) [OF k] recs(2) [OF k] recs(3) [OF k]
    show "snd (main_run hw (Suc (Suc k)) s0) =
        (if k = 15
         then (save_lap hw (snd (main_run hw (Suc k) s0)))
                \<lparr>trace := trace (save_lap hw (snd (main_run hw (Suc k) s0)))
                           @ [CsrWrite Stop 1, CsrWrite Stop 0]\<rparr>
         else save_lap hw (snd (main_run hw (Suc k) s0))) \<and>
      read_lap (of_nat k) (snd (main_run hw (Suc (Suc k)) s0)) =
        narrow (sample hw (trace (snd (main_run hw (Suc k) s0)))) \<and>
      (\<forall>i<k. read_lap (of_nat i) (snd (main_run hw (Suc (Suc k)) s0)) =
               read_lap (of_nat i) (snd (main_run hw (Suc k) s0))) \<and>
      (\<forall>a. a \<noteq> lap_byte (snd (main_run hw (Suc k) s0)) (3 * k) \<and>
           a \<noteq> lap_byte (snd (main_run hw (Suc k) s0)) (3 * k + 1) \<and>
           a \<noteq> lap_byte (snd (main_run hw (Suc k) s0)) (3 * k + 2) \<longrightarrow>
           ram (snd (main_run hw (Suc (Suc k)) s0)) a =
             ram (snd (main_run hw (Suc k) s0)) a)"
      by (intro conjI)
  qed
  from all16 have fin: "\<forall>i<16. read_lap (of_nat i) (snd (main_run hw 17 s0)) =
      narrow (sample hw (trace (snd (main_run hw (Suc i) s0))))"
    by blast
  from first run last tr cmds stay cyc fin show ?thesis
    by (intro conjI)
qed


theorem control_loop_halts_witness:
  "lap_count (boot 0 (\<lambda>a. 0)) = 0 \<and>
   fst (main_run (counter_from 0) 4 (boot 0 (\<lambda>a. 0))) = RUNNING \<and>
   sint (lap_count (snd (main_run (counter_from 0) 4 (boot 0 (\<lambda>a. 0))))) = 3 \<and>
   sint (lap_count (snd (main_run (counter_from 0) 5 (boot 0 (\<lambda>a. 0))))) = 4 \<and>
   fst (main_run (counter_from 0) 17 (boot 0 (\<lambda>a. 0))) = HALTED \<and>
   main_run (counter_from 0) 40 (boot 0 (\<lambda>a. 0)) =
     main_run (counter_from 0) 17 (boot 0 (\<lambda>a. 0)) \<and>
   snd (main_run (counter_from 0) 3 (boot 0 (\<lambda>a. 0))) =
     save_lap (counter_from 0) (snd (main_run (counter_from 0) 2 (boot 0 (\<lambda>a. 0)))) \<and>
   read_lap 1 (snd (main_run (counter_from 0) 3 (boot 0 (\<lambda>a. 0)))) = (7, 8, 9) \<and>
   read_lap 0 (snd (main_run (counter_from 0) 3 (boot 0 (\<lambda>a. 0)))) = (4, 5, 6) \<and>
   ram (snd (main_run (counter_from 0) 3 (boot 0 (\<lambda>a. 0)))) 100 = 0 \<and>
   read_lap 1 (snd (main_run (counter_from 0) 17 (boot 0 (\<lambda>a. 0)))) = (7, 8, 9)"
proof -
  define s2 where "s2 = snd (main_run (counter_from 0) 2 (boot 0 (\<lambda>a. 0)))"
  have s2: "s2 = \<lparr>lap_mem = 0, ram = (\<lambda>a. 0)(0 := 4, 1 := 5, 2 := 6), lap_count = 1,
       trace = [CsrWrite Reset 1, CsrWrite Reset 0, CsrWrite Start 1, CsrWrite Start 0,
                CsrRead Minutes 4, CsrRead Seconds 5, CsrRead Ticks 6]\<rparr>"
    unfolding s2_def by (simp only: demo_main_run_2 snd_conv)
  have smp: "narrow (sample (counter_from 0) (trace s2)) = (7, 8, 9)"
    by (simp add: s2 sample_def counter_from_def narrow_def)
  have r0: "read_lap 0 s2 = (4, 5, 6)"
    by (simp add: s2 read_lap_def lap_mem_get_def LAP_RECORD_SIZE_def word_sle_eq)
  have far: "100 \<noteq> lap_byte s2 3" "100 \<noteq> lap_byte s2 4" "100 \<noteq> lap_byte s2 5"
    "ram s2 100 = 0"
    by (simp_all add: s2 lap_byte_def)
  have empty: "lap_count (boot 0 (\<lambda>a. 0)) = 0" by (simp add: boot_def)
  note all = control_loop_halts [OF empty, of "counter_from 0"]
  from all have "\<forall>k<16.
      fst (main_run (counter_from 0) (Suc k) (boot 0 (\<lambda>a. 0))) = RUNNING \<and>
      sint (lap_count (snd (main_run (counter_from 0) (Suc k) (boot 0 (\<lambda>a. 0))))) = int k \<and>
      sint (lap_count (snd (main_run (counter_from 0) (Suc (Suc k)) (boot 0 (\<lambda>a. 0))))) =
        int k + 1"
    by blast
  from this [rule_format, of 3] have running:
    "fst (main_run (counter_from 0) 4 (boot 0 (\<lambda>a. 0))) = RUNNING"
    "sint (lap_count (snd (main_run (counter_from 0) 4 (boot 0 (\<lambda>a. 0))))) = 3"
    "sint (lap_count (snd (main_run (counter_from 0) 5 (boot 0 (\<lambda>a. 0))))) = 4"
    by simp_all
  from all have halted: "fst (main_run (counter_from 0) 17 (boot 0 (\<lambda>a. 0))) = HALTED"
    by blast
  from all have "\<forall>n\<ge>17. main_run (counter_from 0) n (boot 0 (\<lambda>a. 0)) =
      main_run (counter_from 0) 17 (boot 0 (\<lambda>a. 0))"
    by blast
  from this [rule_format, of 40] have stay:
    "main_run (counter_from 0) 40 (boot 0 (\<lambda>a. 0)) =
       main_run (counter_from 0) 17 (boot 0 (\<lambda>a. 0))"
    by simp
  define s3 where "s3 = snd (main_run (counter_from 0) 3 (boot 0 (\<lambda>a. 0)))"
  have three: "Suc 2 = 3" by simp
  from all have "\<forall>k<16.
      snd (main_run (counter_from 0) (Suc (Suc k)) (boot 0 (\<lambda>a. 0))) =
        (if k = 15
         then (save_lap (counter_from 0)
                 (snd (main_run (counter_from 0) (Suc k) (boot 0 (\<lambda>a. 0)))))
                \<lparr>trace := trace (save_lap (counter_from 0)
                             (snd (main_run (counter_from 0) (Suc k) (boot 0 (\<lambda>a. 0)))))
                           @ [CsrWrite Stop 1, CsrWrite Stop 0]\<rparr>
         else save_lap (counter_from 0)
                (snd (main_run (counter_from 0) (Suc k) (boot 0 (\<lambda>a. 0))))) \<and>
      read_lap (of_nat k) (snd (main_run (counter_from 0) (Suc (Suc k)) (boot 0 (\<lambda>a. 0)))) =
        narrow (sample (counter_from 0)
          (trace (snd (main_run (counter_from 0) (Suc k) (boot 0 (\<lambda>a. 0)))))) \<and>
      (\<forall>i<k. read_lap (of_nat i)
                 (snd (main_run (counter_from 0) (Suc (Suc k)) (boot 0 (\<lambda>a. 0)))) =
               read_lap (of_nat i)
                 (snd (main_run (counter_from 0) (Suc k) (boot 0 (\<lambda>a. 0))))) \<and>
      (\<forall>a. a \<noteq> lap_byte (snd (main_run (counter_from 0) (Suc k) (boot 0 (\<lambda>a. 0)))) (3 * k) \<and>
           a \<noteq> lap_byte (snd (main_run (counter_from 0) (Suc k) (boot 0 (\<lambda>a. 0)))) (3 * k + 1) \<and>
           a \<noteq> lap_byte (snd (main_run (counter_from 0) (Suc k) (boot 0 (\<lambda>a. 0)))) (3 * k + 2) \<longrightarrow>
           ram (snd (main_run (counter_from 0) (Suc (Suc k)) (boot 0 (\<lambda>a. 0)))) a =
             ram (snd (main_run (counter_from 0) (Suc k) (boot 0 (\<lambda>a. 0)))) a)"
    by blast
  from this [rule_format, of 1, unfolded Suc_1 three, folded s2_def s3_def]
  have cyc: "s3 = save_lap (counter_from 0) s2"
    "read_lap 1 s3 = narrow (sample (counter_from 0) (trace s2))"
    "\<forall>i<1. read_lap (of_nat i) s3 = read_lap (of_nat i) s2"
    "\<forall>a. a \<noteq> lap_byte s2 3 \<and> a \<noteq> lap_byte s2 4 \<and> a \<noteq> lap_byte s2 5 \<longrightarrow> ram s3 a = ram s2 a"
    by auto
  from cyc(3) [rule_format, of 0] have old: "read_lap 0 s3 = read_lap 0 s2" by simp
  from cyc(4) [rule_format, of 100] far have frame: "ram s3 100 = 0" by simp
  from all have "\<forall>i<16. read_lap (of_nat i) (snd (main_run (counter_from 0) 17 (boot 0 (\<lambda>a. 0)))) =
      narrow (sample (counter_from 0)
        (trace (snd (main_run (counter_from 0) (Suc i) (boot 0 (\<lambda>a. 0))))))"
    by blast
  from this [rule_format, of 1, unfolded Suc_1, folded s2_def] have fin:
    "read_lap 1 (snd (main_run (counter_from 0) 17 (boot 0 (\<lambda>a. 0)))) = (7, 8, 9)"
    by (simp add: smp)
  from empty running halted stay cyc(1,2) old frame fin smp r0 show ?thesis
    unfolding s2_def s3_def by simp
qed

text \<open>
  C8. Nothing is logged before \<^verbatim>\<open>main\<close> starts. At every later step the log begins with
  the four writes: reset 1, reset 0, start 1, start 0, so they precede every register
  read, and these four are all the writes to the reset and start lines that the log ever
  contains.
\<close>

theorem init_pulses_once:
  "trace (snd (main_run hw 0 (boot b r))) = [] \<and>
   take 4 (trace (snd (main_run hw (Suc n) (boot b r)))) =
     [CsrWrite Reset 1, CsrWrite Reset 0, CsrWrite Start 1, CsrWrite Start 0] \<and>
   filter is_reset_or_start (trace (snd (main_run hw (Suc n) (boot b r)))) =
     [CsrWrite Reset 1, CsrWrite Reset 0, CsrWrite Start 1, CsrWrite Start 0]"
proof -
  let ?s1 = "main_init (boot b r)"
  have empty: "lap_count (boot b r) = 0" by (simp add: boot_def)
  have t1: "trace ?s1 = init_pulses" by (simp add: main_init_eq boot_def)
  have shape: "\<exists>ext. trace (snd (main_run hw (Suc n) (boot b r))) = init_pulses @ ext \<and>
                     filter is_reset_or_start ext = []"
  proof (cases "n < 16")
    case True
    from trace_appends_any [of hw n ?s1] obtain ext where
      "trace (appends hw n ?s1) = init_pulses @ ext" "filter is_command ext = []"
      unfolding t1 by blast
    with main_run_running [OF empty True, of hw] show ?thesis
      by (intro exI [of _ ext]) (simp add: no_command_no_reset_or_start)
  next
    case False
    from trace_appends_any [of hw 16 ?s1] obtain ext where
      ext: "trace (appends hw 16 ?s1) = init_pulses @ ext" "filter is_command ext = []"
      unfolding t1 by blast
    from False have "17 + (n - 16) = Suc n" by simp
    with main_run_halted [OF empty, of hw "n - 16"]
    have "main_run hw (Suc n) (boot b r) = (HALTED, halted_state hw (boot b r))"
      by (simp only:)
    with ext show ?thesis
      by (intro exI [of _ "ext @ stop_pulse"])
         (simp add: halted_state_def no_command_no_reset_or_start stop_pulse_def)
  qed
  then obtain ext where
    "trace (snd (main_run hw (Suc n) (boot b r))) = init_pulses @ ext"
    "filter is_reset_or_start ext = []"
    by blast
  then show ?thesis
    by (simp add: main_run_0 boot_def init_pulses_def)
qed

text \<open>
  C9. In each of the 16 passes of the capture loop (pass \<open>k + 1\<close> starts at step
  \<open>k + 1\<close>, \<open>k < 16\<close>), with \<open>s2\<close> the globals after \<^verbatim>\<open>save_lap\<close>: the index
  \<^verbatim>\<open>lap_count - 1\<close> handed to \<^verbatim>\<open>read_lap\<close> is \<open>k\<close>, it is not negative, it is below
  \<^verbatim>\<open>MAX_LAPS\<close> and below the count, and the read returns the record just stored, the
  sample of this pass. After step 16 the control point is \<open>HALTED\<close>, so there is no other
  call of \<^verbatim>\<open>read_lap\<close>.
\<close>

theorem verification_read_in_range:
  assumes "lap_count s0 = 0" and "k < 16"
  shows "(let s = snd (main_run hw (Suc k) s0);
              s2 = save_lap hw (delay_ms 5000 s);
              index = lap_count s2 - 1
          in fst (main_run hw (Suc k) s0) = RUNNING \<and>
             index = of_nat k \<and> 0 \<le>s index \<and> index <s MAX_LAPS \<and> index <s lap_count s2 \<and>
             fst (snd (main_cycle hw s)) = read_lap index s2 \<and>
             read_lap index s2 = narrow (sample hw (trace s))) \<and>
         (\<forall>n>16. fst (main_run hw n s0) = HALTED)"
proof -
  let ?s = "appends hw k (main_init s0)"
  have empty: "lap_count (main_init s0) = 0" using assms(1) by (simp add: main_init_eq)
  have cnt: "lap_count ?s = of_nat k"
    using assms(2) by (simp add: lap_count_appends [OF empty])
  have cnt2: "lap_count (save_lap hw ?s) = of_nat (Suc k)"
    by (rule lap_count_save_lap [OF cnt assms(2)])
  then have idx: "lap_count (save_lap hw ?s) - 1 = of_nat k" by simp
  have range: "(0 :: int32) \<le>s of_nat k" "(of_nat k :: int32) <s 16"
    "(of_nat k :: int32) <s of_nat (Suc k)"
    using assms(2) sle_of_nat [of 0 k] sless_of_nat [of k 16] sless_of_nat [of k "Suc k"]
    by simp_all
  have halted: "fst (main_run hw n s0) = HALTED" if "16 < n" for n
    using main_run_halted [OF assms(1), of hw "n - 17"] that by simp
  from main_run_running [OF assms, of hw] main_cycle_nat [OF cnt assms(2), of hw]
    read_new_lap [OF cnt assms(2), of hw] range halted
  show ?thesis
    by (simp add: Let_def delay_ms_id idx cnt2 MAX_LAPS_def)
qed


theorem verification_read_in_range_witness:
  "lap_count (boot 0 (\<lambda>a. 0)) = 0 \<and> (1::nat) < 16 \<and>
   lap_count (save_lap (counter_from 0)
     (delay_ms 5000 (snd (main_run (counter_from 0) 2 (boot 0 (\<lambda>a. 0)))))) - 1 = 1 \<and>
   fst (snd (main_cycle (counter_from 0) (snd (main_run (counter_from 0) 2 (boot 0 (\<lambda>a. 0))))))
     = (7, 8, 9) \<and>
   fst (main_run (counter_from 0) 20 (boot 0 (\<lambda>a. 0))) = HALTED"
proof -
  have empty: "lap_count (boot 0 (\<lambda>a. 0)) = 0" by (simp add: boot_def)
  note all = verification_read_in_range [OF empty, of 1 "counter_from 0", unfolded Suc_1]
  have smp: "sample (counter_from 0) (trace (snd (main_run (counter_from 0) 2 (boot 0 (\<lambda>a. 0)))))
      = (7, 8, 9)"
    by (simp only: demo_main_run_2) (simp add: sample_def counter_from_def)
  from all have "\<forall>n>16. fst (main_run (counter_from 0) n (boot 0 (\<lambda>a. 0))) = HALTED"
    by simp
  from this [rule_format, of 20] have
    halted: "fst (main_run (counter_from 0) 20 (boot 0 (\<lambda>a. 0))) = HALTED"
    by simp
  from all smp have
    "lap_count (save_lap (counter_from 0)
       (delay_ms 5000 (snd (main_run (counter_from 0) 2 (boot 0 (\<lambda>a. 0)))))) - 1 = 1"
    "fst (snd (main_cycle (counter_from 0) (snd (main_run (counter_from 0) 2 (boot 0 (\<lambda>a. 0))))))
       = (7, 8, 9)"
    by (auto simp add: Let_def narrow_def)
  with empty halted show ?thesis by simp
qed

end
